theory Spec2Isabelle
  imports Main "HOL-Library.Multiset"
begin

section \<open>Package testutils (xds/internal/testutils/balancer.go)\<close>

subsection \<open>Go values shared by the whole file\<close>

text \<open>
  A call of a Go function either returns, panics, or (a channel send with no room and no
  receiver) blocks for ever. The two abnormal ends are values of \<open>fault\<close>; a function
  that can end abnormally has the result type \<open>fault + 'r\<close>.
\<close>

datatype fault =
    PanicNotImplemented
  | PanicIndexOutOfRange int nat
  | Blocked

text \<open>
  \<open>fmt.Errorf(format, args...)\<close>: the format string and the arguments, which in this
  file are always slices of SubConns. A nil \<open>error\<close> is \<open>None\<close>.
\<close>

datatype 'sc error = Errorf string "'sc list list"

subsection \<open>IsRoundRobin\<close>

text \<open>
  The argument \<open>f func() balancer.SubConn\<close> is a closure over hidden mutable state. It is
  modelled by state passing: a call takes the closure's state and gives the returned
  SubConn and the new state.
\<close>

type_synonym ('s, 'sc) pick = "'s \<Rightarrow> 'sc \<times> 's"

text \<open>Reading a Go map of ints: an absent key reads as the zero value.\<close>

definition wantSet_get :: "('sc \<rightharpoonup> int) \<Rightarrow> 'sc \<Rightarrow> int" where
  "wantSet_get wantSet sc = (case wantSet sc of None \<Rightarrow> 0 | Some c \<Rightarrow> c)"

text \<open>\<^verbatim>\<open>for _, sc := range want { wantSet[sc]++ }\<close>\<close>

fun count_want :: "'sc list \<Rightarrow> ('sc \<rightharpoonup> int) \<Rightarrow> ('sc \<rightharpoonup> int)" where
  "count_want [] wantSet = wantSet"
| "count_want (sc # want) wantSet =
     count_want want (wantSet(sc \<mapsto> wantSet_get wantSet sc + 1))"

text \<open>
  The first loop, \<^verbatim>\<open>for range want\<close>: the second argument is the part of \<open>want\<close> still
  to be ranged over (only its length matters), \<open>got\<close> is \<open>gotSliceFirstIteration\<close>.
  The result is \<open>Inl\<close> of the returned error or \<open>Inr\<close> of the completed slice, with the
  state the closure was left in.
\<close>

fun first_iteration ::
  "'sc list \<Rightarrow> 'sc list \<Rightarrow> ('s, 'sc) pick \<Rightarrow> 's \<Rightarrow> ('sc \<rightharpoonup> int) \<Rightarrow> 'sc list
     \<Rightarrow> ('sc error + 'sc list) \<times> 's" where
  "first_iteration want [] f s wantSet got = (Inr got, s)"
| "first_iteration want (_ # rest) f s wantSet got =
     (case f s of (g, s') \<Rightarrow>
        let got' = got @ [g];
            wantSet' = wantSet(g \<mapsto> wantSet_get wantSet g - 1)
        in if wantSet_get wantSet' g < 0
           then (Inl (Errorf ''non-roundrobin want: %v, result: %v'' [want, got']), s')
           else first_iteration want rest f s' wantSet' got')"

text \<open>
  The inner loop of the second part, \<^verbatim>\<open>for _, w := range gotSliceFirstIteration\<close>:
  \<open>first\<close> is the whole of \<open>gotSliceFirstIteration\<close>, the second argument the part still
  to be ranged over, \<open>second\<close> is \<open>gotSliceSecondIteration\<close>.
\<close>

fun second_iteration ::
  "'sc list \<Rightarrow> 'sc list \<Rightarrow> ('s, 'sc) pick \<Rightarrow> 's \<Rightarrow> 'sc list
     \<Rightarrow> ('sc error + 'sc list) \<times> 's" where
  "second_iteration first [] f s second = (Inr second, s)"
| "second_iteration first (w # ws) f s second =
     (case f s of (g, s') \<Rightarrow>
        let second' = second @ [g]
        in if w \<noteq> g
           then (Inl (Errorf ''non-roundrobin, first iter: %v, second iter: %v''
                        [first, second']), s')
           else second_iteration first ws f s' second')"

text \<open>The outer loop of the second part, \<^verbatim>\<open>for i := 0; i < 2; i++\<close>.\<close>

function repeat_iterations ::
  "int \<Rightarrow> 'sc list \<Rightarrow> ('s, 'sc) pick \<Rightarrow> 's \<Rightarrow> 'sc list \<Rightarrow> 'sc error option \<times> 's" where
  "repeat_iterations i first f s second =
     (if i < 2
      then (case second_iteration first first f s second of
              (Inl e, s') \<Rightarrow> (Some e, s')
            | (Inr second', s') \<Rightarrow> repeat_iterations (i + 1) first f s' second')
      else (None, s))"
  by pat_completeness auto
termination
  by (relation "measure (\<lambda>(i, first, f, s, second). nat (2 - i))") auto

declare repeat_iterations.simps [simp del]

text \<open>
  \<open>IsRoundRobin want f\<close>, run with the closure in state \<open>s\<close>: the returned error
  (\<open>None\<close> is nil) and the state the closure is left in.
\<close>

definition IsRoundRobin ::
  "'sc list \<Rightarrow> ('s, 'sc) pick \<Rightarrow> 's \<Rightarrow> 'sc error option \<times> 's" where
  "IsRoundRobin want f s =
     (let wantSet = count_want want Map.empty
      in case first_iteration want want f s wantSet [] of
           (Inl e, s') \<Rightarrow> (Some e, s')
         | (Inr gotSliceFirstIteration, s') \<Rightarrow>
             repeat_iterations 0 gotSliceFirstIteration f s' [])"

subsection \<open>Observing a closure from outside\<close>

text \<open>
  The vocabulary the properties of \<open>IsRoundRobin\<close> are stated in: \<open>picks f s n\<close> is the
  list of the values that \<open>n\<close> successive calls of the closure return, starting in state
  \<open>s\<close>; \<open>after_picks f s n\<close> is the state these calls leave; \<open>counted f\<close> is the closure
  \<open>f\<close> that also counts its own invocations, as \<open>testClosure\<close> keeps its index \<open>i\<close>.
\<close>

fun picks :: "('s, 'sc) pick \<Rightarrow> 's \<Rightarrow> nat \<Rightarrow> 'sc list" where
  "picks f s 0 = []"
| "picks f s (Suc n) = fst (f s) # picks f (snd (f s)) n"

fun after_picks :: "('s, 'sc) pick \<Rightarrow> 's \<Rightarrow> nat \<Rightarrow> 's" where
  "after_picks f s 0 = s"
| "after_picks f s (Suc n) = after_picks f (snd (f s)) n"

definition counted :: "('s, 'sc) pick \<Rightarrow> ('s \<times> nat, 'sc) pick" where
  "counted f = (\<lambda>(s, n). case f s of (g, s') \<Rightarrow> (g, (s', Suc n)))"

text \<open>
  \<open>within_counts c gs\<close>: consuming the picks \<open>gs\<close> one by one from the remaining counts
  \<open>c\<close> never drives a count below zero.
\<close>

fun within_counts :: "('sc \<Rightarrow> int) \<Rightarrow> 'sc list \<Rightarrow> bool" where
  "within_counts c [] = True"
| "within_counts c (g # gs) =
     (0 < c g \<and> within_counts (\<lambda>x. if x = g then c g - 1 else c x) gs)"

text \<open>
  \<open>testClosure.next\<close> cycles through the slice \<open>r\<close>; the state is the index \<open>i\<close>. The
  equation is the method for a non-empty \<open>r\<close> and \<open>i < len(r)\<close>, which every state
  reached from such an index satisfies; elsewhere the Go method panics on \<open>tc.r[tc.i]\<close>,
  and the closure is not used there.
\<close>

definition testClosure_next :: "'sc list \<Rightarrow> (nat, 'sc) pick" where
  "testClosure_next r = (\<lambda>i. (r ! i, (i + 1) mod length r))"

subsection \<open>The pool of SubConns\<close>

definition TestSubConnsCount :: int where
  "TestSubConnsCount = 16"

text \<open>
  \<open>TestSubConn\<close> is the struct; its field \<open>id\<close> is written \<open>id'\<close> here. The pool holds
  pointers to sixteen such structs. Their ids are pairwise different, so a pointer into the
  pool is identified with the struct it points to. An interface value of type
  \<open>balancer.SubConn\<close> is \<open>None\<close> when nil, or \<open>Some\<close> of a pointer.
\<close>

record TestSubConn =
  id' :: string

type_synonym SubConn = "TestSubConn option"

type_synonym go_error = "SubConn error"

text \<open>\<open>fmt.Sprintf("sc%d", i)\<close>: the decimal digits of \<open>i\<close> after the letters \<open>sc\<close>.\<close>

fun itoa :: "nat \<Rightarrow> string" where
  "itoa n =
     (if n < 10 then [''0123456789'' ! n]
      else itoa (n div 10) @ [''0123456789'' ! (n mod 10)])"

declare itoa.simps [simp del]

definition Sprintf_sc :: "int \<Rightarrow> string" where
  "Sprintf_sc i = ''sc'' @ (if i < 0 then ''-'' @ itoa (nat (- i)) else itoa (nat i))"

text \<open>
  The loop of \<open>init\<close>, \<^verbatim>\<open>for i := 0; i < TestSubConnsCount; i++\<close>, appending to the
  global \<open>TestSubConns\<close>, which starts as the nil slice.
\<close>

function init_loop :: "int \<Rightarrow> TestSubConn list \<Rightarrow> TestSubConn list" where
  "init_loop i subConns =
     (if i < TestSubConnsCount
      then init_loop (i + 1) (subConns @ [\<lparr>id' = Sprintf_sc i\<rparr>])
      else subConns)"
  by pat_completeness auto
termination
  by (relation "measure (\<lambda>(i, subConns). nat (TestSubConnsCount - i))") auto

declare init_loop.simps [simp del]

definition TestSubConns :: "TestSubConn list" where
  "TestSubConns = init_loop 0 []"

definition String :: "TestSubConn \<Rightarrow> string" where
  "String tsc = id' tsc"

subsection \<open>Buffered channels, used from one goroutine\<close>

text \<open>
  A channel made by \<open>make(chan T, n)\<close> is its capacity and the values buffered in it,
  oldest first. The file's three uses of a channel, with no other goroutine waiting on it:
  \<^item> \<^verbatim>\<open>select { case ch <- v: default: }\<close> sends if there is room and otherwise does
    nothing;
  \<^item> \<^verbatim>\<open>select { case <-ch: default: }\<close> takes the oldest value if there is one;
  \<^item> \<^verbatim>\<open>ch <- v\<close> sends if there is room and otherwise blocks.
\<close>

record 'v chan =
  cap :: nat
  buf :: "'v list"

definition make_chan :: "nat \<Rightarrow> 'v chan" where
  "make_chan n = \<lparr>cap = n, buf = []\<rparr>"

definition try_send :: "'v chan \<Rightarrow> 'v \<Rightarrow> 'v chan" where
  "try_send ch v = (if length (buf ch) < cap ch then ch\<lparr>buf := buf ch @ [v]\<rparr> else ch)"

definition try_recv :: "'v chan \<Rightarrow> 'v chan" where
  "try_recv ch = (case buf ch of [] \<Rightarrow> ch | _ # rest \<Rightarrow> ch\<lparr>buf := rest\<rparr>)"

definition send :: "'v chan \<Rightarrow> 'v \<Rightarrow> fault + 'v chan" where
  "send ch v = (if length (buf ch) < cap ch then Inr (ch\<lparr>buf := buf ch @ [v]\<rparr>) else Inl Blocked)"

subsection \<open>TestClientConn\<close>

text \<open>
  The types of the packages \<open>resolver\<close>, \<open>balancer\<close> and \<open>connectivity\<close> are declared
  outside this file and are type parameters here: \<open>'a\<close> is \<open>resolver.Address\<close>, \<open>'o\<close> is
  \<open>balancer.NewSubConnOptions\<close>, \<open>'st\<close> is \<open>connectivity.State\<close> and \<open>'p\<close> is
  \<open>balancer.Picker\<close>. \<open>balancer.State\<close> is the pair of its two fields the file reads.

  The \<open>logger\<close> is the \<open>testing.T\<close> handed to \<open>NewTestClientConn\<close>; it is modelled by the
  lines logged so far, and a line by the format's arguments.
\<close>

record ('st, 'p) balancer_State =
  ConnectivityState :: 'st
  Picker :: 'p

datatype ('a, 'o, 'st, 'p) log_line =
    Logf_NewSubConn "'a list" 'o string
  | Logf_RemoveSubConn SubConn
  | Logf_UpdateState "('st, 'p) balancer_State"

record ('a, 'o, 'st, 'p) TestClientConn =
  logger :: "('a, 'o, 'st, 'p) log_line list"
  NewSubConnAddrsCh :: "'a list chan"
  NewSubConnCh :: "SubConn chan"
  RemoveSubConnCh :: "SubConn chan"
  NewPickerCh :: "'p chan"
  NewStateCh :: "'st chan"
  subConnIdx :: int

definition NewTestClientConn ::
  "('a, 'o, 'st, 'p) log_line list \<Rightarrow> ('a, 'o, 'st, 'p) TestClientConn" where
  "NewTestClientConn t =
     \<lparr>logger = t,
      NewSubConnAddrsCh = make_chan 10,
      NewSubConnCh = make_chan 10,
      RemoveSubConnCh = make_chan 10,
      NewPickerCh = make_chan 1,
      NewStateCh = make_chan 1,
      subConnIdx = 0\<rparr>"

text \<open>
  Each method takes the \<open>TestClientConn\<close> the receiver points to and gives either a fault
  or what it returns together with the updated \<open>TestClientConn\<close>. Indexing
  \<open>TestSubConns\<close> out of range panics before anything is changed.
\<close>

definition NewSubConn ::
  "('a, 'o, 'st, 'p) TestClientConn \<Rightarrow> 'a list \<Rightarrow> 'o
     \<Rightarrow> fault + ((SubConn \<times> go_error option) \<times> ('a, 'o, 'st, 'p) TestClientConn)" where
  "NewSubConn tcc a opts =
     (if 0 \<le> subConnIdx tcc \<and> subConnIdx tcc < int (length TestSubConns)
      then
        let sc = TestSubConns ! nat (subConnIdx tcc)
        in Inr ((Some sc, None),
                tcc\<lparr>subConnIdx := subConnIdx tcc + 1,
                    logger := logger tcc @ [Logf_NewSubConn a opts (String sc)],
                    NewSubConnAddrsCh := try_send (NewSubConnAddrsCh tcc) a,
                    NewSubConnCh := try_send (NewSubConnCh tcc) (Some sc)\<rparr>)
      else Inl (PanicIndexOutOfRange (subConnIdx tcc) (length TestSubConns)))"

definition RemoveSubConn ::
  "('a, 'o, 'st, 'p) TestClientConn \<Rightarrow> SubConn
     \<Rightarrow> fault + (unit \<times> ('a, 'o, 'st, 'p) TestClientConn)" where
  "RemoveSubConn tcc sc =
     Inr ((), tcc\<lparr>logger := logger tcc @ [Logf_RemoveSubConn sc],
                  RemoveSubConnCh := try_send (RemoveSubConnCh tcc) sc\<rparr>)"

definition UpdateBalancerState ::
  "('a, 'o, 'st, 'p) TestClientConn \<Rightarrow> 'st \<Rightarrow> 'p
     \<Rightarrow> fault + (unit \<times> ('a, 'o, 'st, 'p) TestClientConn)" where
  "UpdateBalancerState tcc s p = Inl PanicNotImplemented"

definition UpdateState ::
  "('a, 'o, 'st, 'p) TestClientConn \<Rightarrow> ('st, 'p) balancer_State
     \<Rightarrow> fault + (unit \<times> ('a, 'o, 'st, 'p) TestClientConn)" where
  "UpdateState tcc bs =
     (let tcc1 = tcc\<lparr>logger := logger tcc @ [Logf_UpdateState bs]\<rparr>
      in case send (try_recv (NewStateCh tcc1)) (ConnectivityState bs) of
           Inl e \<Rightarrow> Inl e
         | Inr stateCh \<Rightarrow>
             (case send (try_recv (NewPickerCh tcc1)) (Picker bs) of
                Inl e \<Rightarrow> Inl e
              | Inr pickerCh \<Rightarrow>
                  Inr ((), tcc1\<lparr>NewStateCh := stateCh, NewPickerCh := pickerCh\<rparr>)))"

definition ResolveNow ::
  "('a, 'o, 'st, 'p) TestClientConn \<Rightarrow> 'r
     \<Rightarrow> fault + (unit \<times> ('a, 'o, 'st, 'p) TestClientConn)" where
  "ResolveNow tcc opts = Inl PanicNotImplemented"

definition Target ::
  "('a, 'o, 'st, 'p) TestClientConn
     \<Rightarrow> fault + (string \<times> ('a, 'o, 'st, 'p) TestClientConn)" where
  "Target tcc = Inl PanicNotImplemented"

subsection \<open>testConstBalancer and TestConstPicker\<close>

text \<open>
  The field \<open>cc\<close> is an interface value; the implementation of \<open>balancer.ClientConn\<close> in
  this file is \<open>TestClientConn\<close>, and \<open>cc\<close> is the \<open>TestClientConn\<close> it points to.
  \<open>balancer.ClientConnState\<close> and \<open>resolver.State\<close> are cut down to the path
  \<open>s.ResolverState.Addresses\<close> that the file reads.
\<close>

record ('a, 'o, 'st, 'p) testConstBalancer =
  cc :: "('a, 'o, 'st, 'p) TestClientConn"




definition Name :: string where
  "Name = ''test-const-balancer''"

definition ResolverError ::
  "('a, 'o, 'st, 'p) testConstBalancer \<Rightarrow> go_error option
     \<Rightarrow> fault + (unit \<times> ('a, 'o, 'st, 'p) testConstBalancer)" where
  "ResolverError tb err = Inl PanicNotImplemented"


definition Close ::
  "('a, 'o, 'st, 'p) testConstBalancer
     \<Rightarrow> fault + (unit \<times> ('a, 'o, 'st, 'p) testConstBalancer)" where
  "Close tb = Inr ((), tb)"

definition ErrTestConstPicker :: go_error where
  "ErrTestConstPicker = Errorf ''const picker error'' []"

record TestConstPicker =
  Err :: "go_error option"
  SC :: SubConn

text \<open>
  \<open>balancer.PickResult\<close> is cut down to its field \<open>SubConn\<close>, the only one the file sets;
  \<open>PickResult{}\<close> has the nil SubConn. \<open>balancer.PickInfo\<close> is not read.
\<close>

record PickResult =
  SubConn :: SubConn

definition Pick :: "TestConstPicker \<Rightarrow> 'i \<Rightarrow> PickResult \<times> go_error option" where
  "Pick tcp info =
     (if Err tcp \<noteq> None then (\<lparr>SubConn = None\<rparr>, Err tcp)
      else (\<lparr>SubConn = SC tcp\<rparr>, None))"

subsection \<open>Driving a fixture\<close>

text \<open>
  \<open>sequentially call s xs\<close> makes the calls \<open>call _ x\<close> for the arguments \<open>x\<close> of \<open>xs\<close>
  one after the other on the same object, starting in state \<open>s\<close>, and stops at the first
  fault. It gives the returned values in order and the last state.
\<close>

fun sequentially ::
  "('s \<Rightarrow> 'x \<Rightarrow> fault + ('r \<times> 's)) \<Rightarrow> 's \<Rightarrow> 'x list \<Rightarrow> fault + ('r list \<times> 's)" where
  "sequentially call s [] = Inr ([], s)"
| "sequentially call s (x # xs) =
     (case call s x of
        Inl e \<Rightarrow> Inl e
      | Inr (r, s') \<Rightarrow>
          (case sequentially call s' xs of
             Inl e \<Rightarrow> Inl e
           | Inr (rs, s'') \<Rightarrow> Inr (r # rs, s'')))"

text \<open>The number of calls of \<open>NewSubConn\<close> that a \<open>TestClientConn\<close> has logged.\<close>

fun is_NewSubConn :: "('a, 'o, 'st, 'p) log_line \<Rightarrow> bool" where
  "is_NewSubConn (Logf_NewSubConn a opts sc) = True"
| "is_NewSubConn (Logf_RemoveSubConn sc) = False"
| "is_NewSubConn (Logf_UpdateState bs) = False"

definition NewSubConn_calls :: "('a, 'o, 'st, 'p) TestClientConn \<Rightarrow> nat" where
  "NewSubConn_calls tcc = length (filter is_NewSubConn (logger tcc))"

text \<open>A channel with no room left.\<close>

definition full :: "'v chan \<Rightarrow> bool" where
  "full ch \<longleftrightarrow> cap ch \<le> length (buf ch)"

text \<open>
  The two single-slot channels as \<open>NewTestClientConn\<close> makes them and every method leaves
  them: capacity one, at most one value buffered.
\<close>

definition latest_slots :: "('a, 'o, 'st, 'p) TestClientConn \<Rightarrow> bool" where
  "latest_slots tcc \<longleftrightarrow>
     cap (NewStateCh tcc) = 1 \<and> length (buf (NewStateCh tcc)) \<le> 1 \<and>
     cap (NewPickerCh tcc) = 1 \<and> length (buf (NewPickerCh tcc)) \<le> 1"

text \<open>What \<open>Pick\<close> returns has a SubConn or an error, and not both.\<close>

definition exactly_one_populated :: "PickResult \<times> go_error option \<Rightarrow> bool" where
  "exactly_one_populated r \<longleftrightarrow> (SubConn (fst r) \<noteq> None) \<noteq> (snd r \<noteq> None)"

section \<open>IsRoundRobin: what it accepts and where it stops\<close>

lemma wantSet_get_upd: "wantSet_get (m(k \<mapsto> v)) x = (if x = k then v else wantSet_get m x)"
  by (simp add: wantSet_get_def)

lemma wantSet_get_empty: "wantSet_get Map.empty x = 0"
  by (simp add: wantSet_get_def)

lemma count_want_get:
  "wantSet_get (count_want want m) x = wantSet_get m x + int (count_list want x)"
  by (induction want arbitrary: m) (auto simp: wantSet_get_upd)

lemma picks_length: "length (picks f s n) = n"
  by (induction n arbitrary: s) auto

lemma picks_add: "picks f s (a + b) = picks f s a @ picks f (after_picks f s a) b"
  by (induction a arbitrary: s) auto

lemma after_picks_add: "after_picks f s (a + b) = after_picks f (after_picks f s a) b"
  by (induction a arbitrary: s) auto

lemma picks_counted: "picks (counted f) (s, c) n = picks f s n"
  by (induction n arbitrary: s c) (auto simp: counted_def split: prod.splits)

lemma after_picks_counted: "after_picks (counted f) (s, c) n = (after_picks f s n, c + n)"
  by (induction n arbitrary: s c) (auto simp: counted_def split: prod.splits)

lemma within_counts_iff:
  "within_counts c gs \<longleftrightarrow> (\<forall>x\<in>set gs. int (count_list gs x) \<le> c x)"
proof (induction gs arbitrary: c)
  case Nil
  then show ?case by simp
next
  case (Cons g gs)
  show ?case
  proof (cases "g \<in> set gs")
    case True
    then show ?thesis using Cons.IH [of "\<lambda>x. if x = g then c g - 1 else c x"] by auto
  next
    case False
    then have "count_list gs g = 0" by (simp add: count_list_0_iff)
    then show ?thesis using Cons.IH [of "\<lambda>x. if x = g then c g - 1 else c x"] False by auto
  qed
qed

lemma first_iteration_ok:
  "within_counts (wantSet_get m) (picks f s (length r)) \<Longrightarrow>
   first_iteration want r f s m got =
     (Inr (got @ picks f s (length r)), after_picks f s (length r))"
proof (induction r arbitrary: s m got)
  case Nil
  then show ?case by simp
next
  case (Cons a r)
  obtain g s' where fs: "f s = (g, s')" by (cases "f s")
  have eq: "wantSet_get (m(g \<mapsto> wantSet_get m g - 1)) =
            (\<lambda>x. if x = g then wantSet_get m g - 1 else wantSet_get m x)"
    by (rule ext) (simp add: wantSet_get_upd)
  from Cons.prems fs have pos: "0 < wantSet_get m g"
    and rest: "within_counts (wantSet_get (m(g \<mapsto> wantSet_get m g - 1))) (picks f s' (length r))"
    by (simp_all add: eq)
  have ih: "first_iteration want r f s' (m(g \<mapsto> wantSet_get m g - 1)) (got @ [g]) =
              (Inr ((got @ [g]) @ picks f s' (length r)), after_picks f s' (length r))"
    by (rule Cons.IH [OF rest])
  show ?case using ih pos fs by (simp add: wantSet_get_upd)
qed

lemma first_iteration_fail:
  "k < length r \<Longrightarrow> within_counts (wantSet_get m) (picks f s k) \<Longrightarrow>
   \<not> within_counts (wantSet_get m) (picks f s (Suc k)) \<Longrightarrow>
   first_iteration want r f s m got =
     (Inl (Errorf ''non-roundrobin want: %v, result: %v'' [want, got @ picks f s (Suc k)]),
      after_picks f s (Suc k))"
proof (induction r arbitrary: s m got k)
  case Nil
  then show ?case by simp
next
  case (Cons a r)
  obtain g s' where fs: "f s = (g, s')" by (cases "f s")
  have eq: "wantSet_get (m(g \<mapsto> wantSet_get m g - 1)) =
            (\<lambda>x. if x = g then wantSet_get m g - 1 else wantSet_get m x)"
    by (rule ext) (simp add: wantSet_get_upd)
  show ?case
  proof (cases k)
    case 0
    with Cons.prems fs have "\<not> 0 < wantSet_get m g" by simp
    then show ?thesis using fs 0 by (simp add: wantSet_get_upd)
  next
    case (Suc j)
    with Cons.prems fs have pos: "0 < wantSet_get m g"
      and j: "j < length r"
      and a: "within_counts (wantSet_get (m(g \<mapsto> wantSet_get m g - 1))) (picks f s' j)"
      and b: "\<not> within_counts (wantSet_get (m(g \<mapsto> wantSet_get m g - 1))) (picks f s' (Suc j))"
      by (simp_all add: eq)
    have ih: "first_iteration want r f s' (m(g \<mapsto> wantSet_get m g - 1)) (got @ [g]) =
                (Inl (Errorf ''non-roundrobin want: %v, result: %v''
                        [want, (got @ [g]) @ picks f s' (Suc j)]),
                 after_picks f s' (Suc j))"
      by (rule Cons.IH [OF j a b])
    show ?thesis using ih pos fs Suc by (simp add: wantSet_get_upd)
  qed
qed

lemma within_counts_first_bad:
  "\<not> within_counts c (picks f s n) \<Longrightarrow>
   \<exists>k<n. within_counts c (picks f s k) \<and> \<not> within_counts c (picks f s (Suc k))"
proof (induction n)
  case 0
  then show ?case by simp
next
  case (Suc n)
  show ?case
  proof (cases "within_counts c (picks f s n)")
    case True
    with Suc.prems show ?thesis by blast
  next
    case False
    from Suc.IH [OF False] show ?thesis using less_Suc_eq by blast
  qed
qed

lemma second_iteration_ok:
  "picks f s (length ws) = ws \<Longrightarrow>
   second_iteration first ws f s second = (Inr (second @ ws), after_picks f s (length ws))"
proof (induction ws arbitrary: s second)
  case Nil
  then show ?case by simp
next
  case (Cons w ws)
  then show ?case by (cases "f s") auto
qed

lemma second_iteration_fail:
  "picks f s (length ws) \<noteq> ws \<Longrightarrow> \<exists>e s'. second_iteration first ws f s second = (Inl e, s')"
proof (induction ws arbitrary: s second)
  case Nil
  then show ?case by simp
next
  case (Cons w ws)
  then show ?case by (cases "f s") (auto simp: Let_def)
qed

lemma wantSet_get_count_want:
  "wantSet_get (count_want want Map.empty) = (\<lambda>x. int (count_list want x))"
  by (rule ext) (simp add: count_want_get wantSet_get_empty)

lemma within_counts_subseteq:
  "within_counts (\<lambda>x. int (count_list want x)) gs \<longleftrightarrow> mset gs \<subseteq># mset want"
proof -
  have "(\<forall>x\<in>set gs. count_list gs x \<le> count_list want x) \<longleftrightarrow>
        (\<forall>x. count_list gs x \<le> count_list want x)"
    by (metis count_list_0_iff le0)
  then show ?thesis
    by (simp add: within_counts_iff subseteq_mset_def count_mset)
qed

lemma subseteq_same_size:
  assumes len: "length gs = length want"
  shows "mset gs \<subseteq># mset want \<longleftrightarrow> mset gs = mset want"
proof
  assume sub: "mset gs \<subseteq># mset want"
  show "mset gs = mset want"
  proof (rule ccontr)
    assume "mset gs \<noteq> mset want"
    with sub have "mset gs \<subset># mset want" by (simp add: subset_mset.less_le)
    then have "size (mset gs) < size (mset want)" by (rule mset_subset_size)
    with len show False by simp
  qed
next
  assume "mset gs = mset want"
  then show "mset gs \<subseteq># mset want" by simp
qed

lemma three_cycles_nth:
  assumes "length A = n" "length B = n" "length C = n"
  shows "(\<forall>i < 2 * n. (A @ B @ C) ! (n + i) = A ! (i mod n)) \<longleftrightarrow> B = A \<and> C = A"
proof
  assume h: "\<forall>i < 2 * n. (A @ B @ C) ! (n + i) = A ! (i mod n)"
  have "B = A"
  proof (rule nth_equalityI)
    show "length B = length A" using assms by simp
    fix i assume "i < length B"
    then have i: "i < n" using assms by simp
    then have "(A @ B @ C) ! (n + i) = A ! (i mod n)" using h by simp
    then show "B ! i = A ! i" using i assms by (simp add: nth_append)
  qed
  moreover have "C = A"
  proof (rule nth_equalityI)
    show "length C = length A" using assms by simp
    fix i assume "i < length C"
    then have i: "i < n" using assms by simp
    then have "(A @ B @ C) ! (n + (n + i)) = A ! ((n + i) mod n)" using h by simp
    then show "C ! i = A ! i" using i assms by (simp add: nth_append)
  qed
  ultimately show "B = A \<and> C = A" by simp
next
  assume h: "B = A \<and> C = A"
  show "\<forall>i < 2 * n. (A @ B @ C) ! (n + i) = A ! (i mod n)"
  proof (intro allI impI)
    fix i assume i: "i < 2 * n"
    show "(A @ B @ C) ! (n + i) = A ! (i mod n)"
    proof (cases "i < n")
      case True
      then show ?thesis using assms h by (simp add: nth_append)
    next
      case False
      then have "i mod n = i - n" using i
        by (metis add_diff_inverse_nat mod_add_self1 mod_less mult_2 nat_add_left_cancel_less)
      then show ?thesis using assms h False i by (simp add: nth_append)
    qed
  qed
qed

lemma repeat_iterations_2: "repeat_iterations 2 first f s second = (None, s)"
  by (simp add: repeat_iterations.simps)

lemma repeat_iterations_step:
  "i < 2 \<Longrightarrow> repeat_iterations i first f s second =
     (case second_iteration first first f s second of
        (Inl e, s') \<Rightarrow> (Some e, s')
      | (Inr second', s') \<Rightarrow> repeat_iterations (i + 1) first f s' second')"
  by (subst repeat_iterations.simps) simp

lemma repeat_iterations_ok:
  assumes "picks f s (length first) = first"
    and "picks f (after_picks f s (length first)) (length first) = first"
  shows "repeat_iterations 0 first f s [] = (None, after_picks f s (2 * length first))"
proof -
  have a: "second_iteration first first f s [] = (Inr first, after_picks f s (length first))"
    using second_iteration_ok [OF assms(1), of first "[]"] by simp
  have b: "second_iteration first first f (after_picks f s (length first)) first =
           (Inr (first @ first), after_picks f (after_picks f s (length first)) (length first))"
    using second_iteration_ok [OF assms(2), of first first] by simp
  show ?thesis
    by (simp add: repeat_iterations_step a b repeat_iterations_2 mult_2 after_picks_add)
qed

lemma repeat_iterations_fail:
  assumes "picks f s (length first) \<noteq> first
    \<or> picks f (after_picks f s (length first)) (length first) \<noteq> first"
  shows "fst (repeat_iterations 0 first f s []) \<noteq> None"
proof (cases "picks f s (length first) = first")
  case False
  from second_iteration_fail [OF False, of first "[]"]
  obtain e s' where "second_iteration first first f s [] = (Inl e, s')" by blast
  then show ?thesis by (simp add: repeat_iterations_step)
next
  case True
  with assms have ne: "picks f (after_picks f s (length first)) (length first) \<noteq> first" by simp
  have a: "second_iteration first first f s [] = (Inr first, after_picks f s (length first))"
    using second_iteration_ok [OF True, of first "[]"] by simp
  from second_iteration_fail [OF ne, of first first]
  obtain e s' where "second_iteration first first f (after_picks f s (length first)) first = (Inl e, s')"
    by blast
  then show ?thesis by (simp add: repeat_iterations_step a)
qed


lemma IsRoundRobin_first:
  "IsRoundRobin want f s =
     (case first_iteration want want f s (count_want want Map.empty) [] of
        (Inl e, s') \<Rightarrow> (Some e, s')
      | (Inr first, s') \<Rightarrow> repeat_iterations 0 first f s' [])"
  by (simp add: IsRoundRobin_def)

lemma IsRoundRobin_ok:
  assumes p1: "mset (picks f s (length want)) = mset want"
    and p2: "picks f (after_picks f s (length want)) (length want) = picks f s (length want)"
    and p3: "picks f (after_picks f s (2 * length want)) (length want) = picks f s (length want)"
  shows "IsRoundRobin want f s = (None, after_picks f s (3 * length want))"
proof -
  let ?n = "length want"
  have wc: "within_counts (wantSet_get (count_want want Map.empty)) (picks f s ?n)"
    using p1 by (simp add: wantSet_get_count_want within_counts_subseteq)
  have a: "first_iteration want want f s (count_want want Map.empty) [] =
           (Inr (picks f s ?n), after_picks f s ?n)"
    using first_iteration_ok [OF wc, of want "[]"] by simp
  have len: "length (picks f s ?n) = ?n" by (rule picks_length)
  have q2: "picks f (after_picks f s ?n) (length (picks f s ?n)) = picks f s ?n"
    using p2 by (simp add: len)
  have q3: "picks f (after_picks f (after_picks f s ?n) (length (picks f s ?n)))
              (length (picks f s ?n)) = picks f s ?n"
    using p3 by (simp add: len mult_2 after_picks_add)
  have b: "repeat_iterations 0 (picks f s ?n) f (after_picks f s ?n) [] =
           (None, after_picks f (after_picks f s ?n) (2 * ?n))"
    using repeat_iterations_ok [OF q2 q3] by (simp add: len)
  have c: "after_picks f (after_picks f s ?n) (2 * ?n) = after_picks f s (3 * ?n)"
    using after_picks_add [of f s ?n "2 * ?n"] by simp
  show ?thesis by (simp add: IsRoundRobin_first a b c)
qed

lemma IsRoundRobin_fail_first:
  assumes "mset (picks f s (length want)) \<noteq> mset want"
  shows "fst (IsRoundRobin want f s) \<noteq> None"
proof -
  let ?c = "wantSet_get (count_want want Map.empty)"
  have "\<not> within_counts ?c (picks f s (length want))"
    using assms
    by (simp add: wantSet_get_count_want within_counts_subseteq subseteq_same_size picks_length)
  from within_counts_first_bad [OF this]
  obtain k where k: "k < length want" "within_counts ?c (picks f s k)"
    "\<not> within_counts ?c (picks f s (Suc k))" by blast
  show ?thesis
    using first_iteration_fail [OF k, of want "[]"] by (simp add: IsRoundRobin_first)
qed

lemma IsRoundRobin_fail_second:
  assumes p1: "mset (picks f s (length want)) = mset want"
    and ne: "picks f (after_picks f s (length want)) (length want) \<noteq> picks f s (length want)
      \<or> picks f (after_picks f s (2 * length want)) (length want) \<noteq> picks f s (length want)"
  shows "fst (IsRoundRobin want f s) \<noteq> None"
proof -
  let ?n = "length want"
  have wc: "within_counts (wantSet_get (count_want want Map.empty)) (picks f s ?n)"
    using p1 by (simp add: wantSet_get_count_want within_counts_subseteq)
  have a: "first_iteration want want f s (count_want want Map.empty) [] =
           (Inr (picks f s ?n), after_picks f s ?n)"
    using first_iteration_ok [OF wc, of want "[]"] by simp
  have len: "length (picks f s ?n) = ?n" by (rule picks_length)
  have "picks f (after_picks f s ?n) (length (picks f s ?n)) \<noteq> picks f s ?n
      \<or> picks f (after_picks f (after_picks f s ?n) (length (picks f s ?n)))
           (length (picks f s ?n)) \<noteq> picks f s ?n"
    using ne by (simp add: len mult_2 after_picks_add)
  from repeat_iterations_fail [OF this]
  show ?thesis by (simp add: IsRoundRobin_first a)
qed

lemma picks_three_cycles:
  "picks f s (3 * n) =
     picks f s n @ picks f (after_picks f s n) n @ picks f (after_picks f s (2 * n)) n"
proof -
  have "picks f s (n + (n + n)) =
        picks f s n @ picks f (after_picks f s n) n
          @ picks f (after_picks f (after_picks f s n) n) n"
    by (simp only: picks_add)
  moreover have "3 * n = n + (n + n)" by simp
  moreover have "after_picks f s (2 * n) = after_picks f (after_picks f s n) n"
    by (simp add: mult_2 after_picks_add)
  ultimately show ?thesis by (simp only:)
qed

lemma IsRoundRobin_repeats_iff:
  "(\<forall>i < 2 * n. picks f s (3 * n) ! (n + i) = picks f s n ! (i mod n)) \<longleftrightarrow>
   picks f (after_picks f s n) n = picks f s n \<and>
   picks f (after_picks f s (2 * n)) n = picks f s n"
  unfolding picks_three_cycles
  by (rule three_cycles_nth) (rule picks_length)+

text \<open>
  C1. \<open>IsRoundRobin want f\<close> returns nil if and only if the first \<open>len(want)\<close> values
  that \<open>f\<close> returns are, in some order, exactly the multiset \<open>want\<close>, and each of the
  next \<open>2 * len(want)\<close> values equals the value recorded at the same index modulo
  \<open>len(want)\<close> in the first round. When it returns nil, no prefix of the first round took
  a SubConn more often than \<open>want\<close> holds it, and \<open>f\<close> has been called exactly
  \<open>3 * len(want)\<close> times.
\<close>

theorem IsRoundRobin_nil_iff:
  "(fst (IsRoundRobin want f s) = None \<longleftrightarrow>
      mset (picks f s (length want)) = mset want \<and>
      (\<forall>i < 2 * length want.
         picks f s (3 * length want) ! (length want + i) =
         picks f s (length want) ! (i mod length want)))
   \<and> (fst (IsRoundRobin want f s) = None \<longrightarrow>
        (\<forall>k \<le> length want. mset (picks f s k) \<subseteq># mset want))
   \<and> (fst (IsRoundRobin want f s) = None \<longrightarrow>
        IsRoundRobin want (counted f) (s, 0) =
          (None, (after_picks f s (3 * length want), 3 * length want)))"
proof -
  let ?n = "length want"
  let ?P1 = "mset (picks f s ?n) = mset want"
  let ?P2 = "\<forall>i < 2 * ?n. picks f s (3 * ?n) ! (?n + i) = picks f s ?n ! (i mod ?n)"
  have iff: "fst (IsRoundRobin want f s) = None \<longleftrightarrow> ?P1 \<and> ?P2"
  proof
    assume nil: "fst (IsRoundRobin want f s) = None"
    have 1: ?P1 using nil IsRoundRobin_fail_first [of f s want] by blast
    have 2: ?P2 using nil 1 IsRoundRobin_fail_second [of f s want]
      unfolding IsRoundRobin_repeats_iff by blast
    from 1 2 show "?P1 \<and> ?P2" ..
  next
    assume "?P1 \<and> ?P2"
    then show "fst (IsRoundRobin want f s) = None"
      unfolding IsRoundRobin_repeats_iff by (simp add: IsRoundRobin_ok)
  qed
  have prefixes: "\<forall>k \<le> ?n. mset (picks f s k) \<subseteq># mset want" if ?P1
  proof (intro allI impI)
    fix k assume "k \<le> ?n"
    then obtain d where d: "?n = k + d" using le_Suc_ex by blast
    have "mset (picks f s k) \<subseteq># mset (picks f s (k + d))"
      by (simp add: picks_add)
    then show "mset (picks f s k) \<subseteq># mset want" using that d by simp
  qed
  have cnt: "IsRoundRobin want (counted f) (s, 0) =
          (None, (after_picks f s (3 * ?n), 3 * ?n))" if "?P1 \<and> ?P2"
  proof -
    from that have a: ?P1
      and b: "picks f (after_picks f s ?n) ?n = picks f s ?n"
      and c: "picks f (after_picks f s (2 * ?n)) ?n = picks f s ?n"
      unfolding IsRoundRobin_repeats_iff by simp_all
    show ?thesis
      using IsRoundRobin_ok [of "counted f" "(s, 0)" want] a b c
      by (simp add: picks_counted after_picks_counted)
  qed
  show ?thesis using iff prefixes cnt by blast
qed

theorem IsRoundRobin_nil_iff_witness:
  "fst (IsRoundRobin [''a'', ''a'', ''b''] (testClosure_next [''a'', ''b'', ''a'']) 0) = None \<and>
   mset (picks (testClosure_next [''a'', ''b'', ''a'']) 0 (length [''a'', ''a'', ''b''])) =
     mset [''a'', ''a'', ''b''] \<and>
   IsRoundRobin [''a'', ''a'', ''b''] (counted (testClosure_next [''a'', ''b'', ''a''])) (0, 0) =
     (None, (0, 9))"
proof -
  have nil: "fst (IsRoundRobin [''a'', ''a'', ''b''] (testClosure_next [''a'', ''b'', ''a'']) 0) = None"
    by code_simp
  have fin: "after_picks (testClosure_next [''a'', ''b'', ''a'']) 0 9 = 0"
    by code_simp
  show ?thesis
    using IsRoundRobin_nil_iff [of "[''a'', ''a'', ''b'']" "testClosure_next [''a'', ''b'', ''a'']" 0]
      nil fin
    by simp
qed

text \<open>
  C7. When the pick number \<open>k + 1\<close> of the first iteration is the first to take a
  SubConn more often than \<open>want\<close> holds it, \<open>IsRoundRobin\<close> returns the error built from
  \<open>want\<close> and the \<open>k + 1\<close> values picked so far, and the closure has been called
  exactly \<open>k + 1\<close> times. For \<open>want = [A, A, B]\<close> with \<open>A\<close> different from \<open>B\<close> and a
  closure that always returns \<open>A\<close>, that is the third call.
\<close>

theorem IsRoundRobin_extra_pick:
  "(k < length want \<and> mset (picks f s k) \<subseteq># mset want \<and>
    \<not> mset (picks f s (Suc k)) \<subseteq># mset want \<longrightarrow>
      IsRoundRobin want (counted f) (s, 0) =
        (Some (Errorf ''non-roundrobin want: %v, result: %v'' [want, picks f s (Suc k)]),
         (after_picks f s (Suc k), Suc k)))
   \<and> (A \<noteq> B \<longrightarrow>
      IsRoundRobin [A, A, B] (counted (\<lambda>u. (A, u))) (u0, 0) =
        (Some (Errorf ''non-roundrobin want: %v, result: %v'' [[A, A, B], [A, A, A]]),
         (u0, 3)))"
proof (intro conjI impI)
  assume h: "k < length want \<and> mset (picks f s k) \<subseteq># mset want \<and>
    \<not> mset (picks f s (Suc k)) \<subseteq># mset want"
  let ?c = "wantSet_get (count_want want Map.empty)"
  let ?g = "counted f"
  from h have a: "k < length want"
    and h1: "mset (picks f s k) \<subseteq># mset want"
    and h2: "\<not> mset (picks f s (Suc k)) \<subseteq># mset want"
    by blast+
  have b: "within_counts ?c (picks ?g (s, 0) k)"
    using h1 by (simp add: wantSet_get_count_want within_counts_subseteq picks_counted del: picks.simps)
  have c: "\<not> within_counts ?c (picks ?g (s, 0) (Suc k))"
    using h2 by (simp add: wantSet_get_count_want within_counts_subseteq picks_counted del: picks.simps)
  have "first_iteration want want ?g (s, 0) (count_want want Map.empty) [] =
     (Inl (Errorf ''non-roundrobin want: %v, result: %v'' [want, [] @ picks ?g (s, 0) (Suc k)]),
      after_picks ?g (s, 0) (Suc k))"
    by (rule first_iteration_fail [OF a b c])
  then show "IsRoundRobin want (counted f) (s, 0) =
        (Some (Errorf ''non-roundrobin want: %v, result: %v'' [want, picks f s (Suc k)]),
         (after_picks f s (Suc k), Suc k))"
    by (simp add: IsRoundRobin_first picks_counted after_picks_counted del: picks.simps after_picks.simps)
next
  assume "A \<noteq> B"
  then show "IsRoundRobin [A, A, B] (counted (\<lambda>u. (A, u))) (u0, 0) =
        (Some (Errorf ''non-roundrobin want: %v, result: %v'' [[A, A, B], [A, A, A]]),
         (u0, 3))"
    by (simp add: IsRoundRobin_def counted_def wantSet_get_def)
qed

theorem IsRoundRobin_extra_pick_witness:
  "2 < length [''a'', ''a'', ''b''] \<and>
   mset (picks (\<lambda>u::unit. (''a'', u)) () 2) \<subseteq># mset [''a'', ''a'', ''b''] \<and>
   \<not> mset (picks (\<lambda>u::unit. (''a'', u)) () (Suc 2)) \<subseteq># mset [''a'', ''a'', ''b''] \<and>
   ''a'' \<noteq> ''b'' \<and>
   IsRoundRobin [''a'', ''a'', ''b''] (counted (\<lambda>u::unit. (''a'', u))) ((), 0) =
     (Some (Errorf ''non-roundrobin want: %v, result: %v''
              [[''a'', ''a'', ''b''], [''a'', ''a'', ''a'']]),
      ((), 3))"
proof -
  have p2: "picks (\<lambda>u::unit. (''a'', u)) () 2 = [''a'', ''a'']"
    by (simp add: eval_nat_numeral)
  have p3: "picks (\<lambda>u::unit. (''a'', u)) () (Suc 2) = [''a'', ''a'', ''a'']"
    by (simp add: eval_nat_numeral)
  have p3': "picks (\<lambda>u::unit. (''a'', u)) () 3 = [''a'', ''a'', ''a'']"
    by (simp add: eval_nat_numeral)
  have h2: "mset (picks (\<lambda>u::unit. (''a'', u)) () 2) \<subseteq># mset [''a'', ''a'', ''b'']"
    unfolding p2 by (simp add: subseteq_mset_def)
  have h3: "\<not> mset (picks (\<lambda>u::unit. (''a'', u)) () (Suc 2)) \<subseteq># mset [''a'', ''a'', ''b'']"
    unfolding p3 by (simp add: subseteq_mset_def)
  show ?thesis
    using IsRoundRobin_extra_pick
      [of 2 "[''a'', ''a'', ''b'']" "\<lambda>u::unit. (''a'', u)" "()" "''a''" "''b''" "()"]
      h2 h3 p3'
    by simp
qed

section \<open>The pool and TestClientConn\<close>

lemma length_init_loop:
  "i \<le> TestSubConnsCount \<Longrightarrow>
   length (init_loop i subConns) = length subConns + nat (TestSubConnsCount - i)"
proof (induction i subConns rule: init_loop.induct)
  case (1 i subConns)
  show ?case
  proof (cases "i < TestSubConnsCount")
    case True
    then show ?thesis using 1 by (subst init_loop.simps) (simp add: nat_diff_distrib)
  next
    case False
    then show ?thesis using 1 by (subst init_loop.simps) simp
  qed
qed

lemma length_TestSubConns: "length TestSubConns = 16"
  using length_init_loop [of 0 "[]"] by (simp add: TestSubConns_def TestSubConnsCount_def)

lemma TestSubConns_eq:
  "TestSubConns =
     [\<lparr>id' = ''sc0''\<rparr>, \<lparr>id' = ''sc1''\<rparr>, \<lparr>id' = ''sc2''\<rparr>, \<lparr>id' = ''sc3''\<rparr>,
      \<lparr>id' = ''sc4''\<rparr>, \<lparr>id' = ''sc5''\<rparr>, \<lparr>id' = ''sc6''\<rparr>, \<lparr>id' = ''sc7''\<rparr>,
      \<lparr>id' = ''sc8''\<rparr>, \<lparr>id' = ''sc9''\<rparr>, \<lparr>id' = ''sc10''\<rparr>, \<lparr>id' = ''sc11''\<rparr>,
      \<lparr>id' = ''sc12''\<rparr>, \<lparr>id' = ''sc13''\<rparr>, \<lparr>id' = ''sc14''\<rparr>, \<lparr>id' = ''sc15''\<rparr>]"
  by (simp add: TestSubConns_def init_loop.simps TestSubConnsCount_def Sprintf_sc_def itoa.simps)

lemma distinct_TestSubConns: "distinct TestSubConns"
  by (simp add: TestSubConns_eq)

lemma sequentially_append:
  "sequentially call s (xs @ ys) =
     (case sequentially call s xs of
        Inl e \<Rightarrow> Inl e
      | Inr (rs, s') \<Rightarrow>
          (case sequentially call s' ys of
             Inl e \<Rightarrow> Inl e
           | Inr (rs', s'') \<Rightarrow> Inr (rs @ rs', s'')))"
  by (induction xs arbitrary: s) (auto split: sum.splits prod.splits)

lemma buf_try_send:
  "buf (try_send ch v) = buf ch @ take (cap ch - length (buf ch)) [v]"
  by (simp add: try_send_def)

lemma cap_try_send: "cap (try_send ch v) = cap ch"
  by (simp add: try_send_def)

lemma try_send_full: "full ch \<Longrightarrow> try_send ch v = ch"
  by (simp add: try_send_def full_def)

lemma NewSubConn_in_range:
  assumes "0 \<le> subConnIdx tcc" "subConnIdx tcc < 16"
  shows "NewSubConn tcc a opts =
     Inr ((Some (TestSubConns ! nat (subConnIdx tcc)), None),
          tcc\<lparr>subConnIdx := subConnIdx tcc + 1,
              logger := logger tcc @
                [Logf_NewSubConn a opts (String (TestSubConns ! nat (subConnIdx tcc)))],
              NewSubConnAddrsCh := try_send (NewSubConnAddrsCh tcc) a,
              NewSubConnCh :=
                try_send (NewSubConnCh tcc) (Some (TestSubConns ! nat (subConnIdx tcc)))\<rparr>)"
  using assms by (simp add: NewSubConn_def length_TestSubConns Let_def)

lemma NewSubConn_out_of_range:
  assumes "subConnIdx tcc < 0 \<or> 16 \<le> subConnIdx tcc"
  shows "NewSubConn tcc a opts = Inl (PanicIndexOutOfRange (subConnIdx tcc) 16)"
  using assms by (auto simp: NewSubConn_def length_TestSubConns)

lemma buf_after_step:
  assumes "b' = b1 @ take (c - length b1) vs" "b1 = b @ take (c - length b) [v]"
  shows "b' = b @ take (c - length b) (v # vs)"
  using assms by (cases "length b < c") (auto simp: Suc_diff_Suc take_Cons')

lemma pool_slice_Cons:
  assumes "i + Suc n \<le> 16"
  shows "take (Suc n) (drop i TestSubConns) = TestSubConns ! i # take n (drop (Suc i) TestSubConns)"
proof -
  have "i < length TestSubConns" using assms by (simp add: length_TestSubConns)
  then have "drop i TestSubConns = TestSubConns ! i # drop (Suc i) TestSubConns"
    by (simp add: Cons_nth_drop_Suc)
  then show ?thesis by simp
qed

lemma sequentially_NewSubConn:
  assumes "subConnIdx tcc = int i" "i + length calls \<le> 16"
  shows "\<exists>tcc'. sequentially (\<lambda>tcc (a, opts). NewSubConn tcc a opts) tcc calls =
           Inr (map (\<lambda>sc. (Some sc, None)) (take (length calls) (drop i TestSubConns)), tcc')
         \<and> subConnIdx tcc' = int (i + length calls)
         \<and> NewSubConn_calls tcc' = NewSubConn_calls tcc + length calls
         \<and> cap (NewSubConnCh tcc') = cap (NewSubConnCh tcc)
         \<and> buf (NewSubConnCh tcc') =
             buf (NewSubConnCh tcc) @
             take (cap (NewSubConnCh tcc) - length (buf (NewSubConnCh tcc)))
               (map Some (take (length calls) (drop i TestSubConns)))
         \<and> cap (NewSubConnAddrsCh tcc') = cap (NewSubConnAddrsCh tcc)
         \<and> buf (NewSubConnAddrsCh tcc') =
             buf (NewSubConnAddrsCh tcc) @
             take (cap (NewSubConnAddrsCh tcc) - length (buf (NewSubConnAddrsCh tcc)))
               (map fst calls)"
  using assms
proof (induction calls arbitrary: tcc i)
  case Nil
  then show ?case by simp
next
  case (Cons c calls)
  obtain a opts where c: "c = (a, opts)" by (cases c)
  let ?sc = "TestSubConns ! i"
  let ?rest = "take (length calls) (drop (Suc i) TestSubConns)"
  let ?t1 = "tcc\<lparr>subConnIdx := subConnIdx tcc + 1,
              logger := logger tcc @ [Logf_NewSubConn a opts (String ?sc)],
              NewSubConnAddrsCh := try_send (NewSubConnAddrsCh tcc) a,
              NewSubConnCh := try_send (NewSubConnCh tcc) (Some ?sc)\<rparr>"
  have step: "NewSubConn tcc a opts = Inr ((Some ?sc, None), ?t1)"
    using NewSubConn_in_range [of tcc a opts] Cons.prems by simp
  have idx1: "subConnIdx ?t1 = int (Suc i)" using Cons.prems by simp
  have room: "Suc i + length calls \<le> 16" using Cons.prems by simp
  from Cons.IH [OF idx1 room]
  obtain tcc' where
    run: "sequentially (\<lambda>tcc (a, opts). NewSubConn tcc a opts) ?t1 calls =
           Inr (map (\<lambda>sc. (Some sc, None)) ?rest, tcc')"
    and idx: "subConnIdx tcc' = int (Suc i + length calls)"
    and cnt: "NewSubConn_calls tcc' = NewSubConn_calls ?t1 + length calls"
    and cap1: "cap (NewSubConnCh tcc') = cap (NewSubConnCh ?t1)"
    and buf1: "buf (NewSubConnCh tcc') =
             buf (NewSubConnCh ?t1) @
             take (cap (NewSubConnCh ?t1) - length (buf (NewSubConnCh ?t1))) (map Some ?rest)"
    and cap2: "cap (NewSubConnAddrsCh tcc') = cap (NewSubConnAddrsCh ?t1)"
    and buf2: "buf (NewSubConnAddrsCh tcc') =
             buf (NewSubConnAddrsCh ?t1) @
             take (cap (NewSubConnAddrsCh ?t1) - length (buf (NewSubConnAddrsCh ?t1)))
               (map fst calls)"
    by blast
  have slice: "take (length (c # calls)) (drop i TestSubConns) = ?sc # ?rest"
    using pool_slice_Cons [of i "length calls"] Cons.prems by simp
  have r: "sequentially (\<lambda>tcc (a, opts). NewSubConn tcc a opts) tcc (c # calls) =
           Inr (map (\<lambda>sc. (Some sc, None)) (take (length (c # calls)) (drop i TestSubConns)), tcc')"
    unfolding slice by (simp add: c step run)
  have i': "subConnIdx tcc' = int (i + length (c # calls))" using idx by simp
  have n': "NewSubConn_calls tcc' = NewSubConn_calls tcc + length (c # calls)"
    using cnt by (simp add: NewSubConn_calls_def)
  have c1: "cap (NewSubConnCh tcc') = cap (NewSubConnCh tcc)"
    using cap1 by (simp add: cap_try_send)
  have c2: "cap (NewSubConnAddrsCh tcc') = cap (NewSubConnAddrsCh tcc)"
    using cap2 by (simp add: cap_try_send)
  have b1: "buf (NewSubConnCh tcc') =
             buf (NewSubConnCh tcc) @
             take (cap (NewSubConnCh tcc) - length (buf (NewSubConnCh tcc)))
               (map Some (take (length (c # calls)) (drop i TestSubConns)))"
    unfolding slice list.map
  proof (rule buf_after_step)
    show "buf (NewSubConnCh tcc') =
            buf (try_send (NewSubConnCh tcc) (Some ?sc)) @
            take (cap (NewSubConnCh tcc) - length (buf (try_send (NewSubConnCh tcc) (Some ?sc))))
              (map Some ?rest)"
      using buf1 by (simp add: cap_try_send)
    show "buf (try_send (NewSubConnCh tcc) (Some ?sc)) =
            buf (NewSubConnCh tcc) @
            take (cap (NewSubConnCh tcc) - length (buf (NewSubConnCh tcc))) [Some ?sc]"
      by (rule buf_try_send)
  qed
  have b2: "buf (NewSubConnAddrsCh tcc') =
             buf (NewSubConnAddrsCh tcc) @
             take (cap (NewSubConnAddrsCh tcc) - length (buf (NewSubConnAddrsCh tcc)))
               (map fst (c # calls))"
    unfolding c list.map fst_conv
  proof (rule buf_after_step)
    show "buf (NewSubConnAddrsCh tcc') =
            buf (try_send (NewSubConnAddrsCh tcc) a) @
            take (cap (NewSubConnAddrsCh tcc) - length (buf (try_send (NewSubConnAddrsCh tcc) a)))
              (map fst calls)"
      using buf2 by (simp add: cap_try_send)
    show "buf (try_send (NewSubConnAddrsCh tcc) a) =
            buf (NewSubConnAddrsCh tcc) @
            take (cap (NewSubConnAddrsCh tcc) - length (buf (NewSubConnAddrsCh tcc))) [a]"
      by (rule buf_try_send)
  qed
  from r i' n' c1 b1 c2 b2 show ?case by blast
qed

lemma sequentially_RemoveSubConn:
  "\<exists>tcc'. sequentially RemoveSubConn tcc scs = Inr (replicate (length scs) (), tcc')
     \<and> cap (RemoveSubConnCh tcc') = cap (RemoveSubConnCh tcc)
     \<and> buf (RemoveSubConnCh tcc') =
         buf (RemoveSubConnCh tcc) @
         take (cap (RemoveSubConnCh tcc) - length (buf (RemoveSubConnCh tcc))) scs"
proof (induction scs arbitrary: tcc)
  case Nil
  then show ?case by simp
next
  case (Cons sc scs)
  let ?t1 = "tcc\<lparr>logger := logger tcc @ [Logf_RemoveSubConn sc],
                 RemoveSubConnCh := try_send (RemoveSubConnCh tcc) sc\<rparr>"
  have step: "RemoveSubConn tcc sc = Inr ((), ?t1)" by (simp add: RemoveSubConn_def)
  from Cons.IH [of ?t1]
  obtain tcc' where
    run: "sequentially RemoveSubConn ?t1 scs = Inr (replicate (length scs) (), tcc')"
    and cap1: "cap (RemoveSubConnCh tcc') = cap (RemoveSubConnCh ?t1)"
    and buf1: "buf (RemoveSubConnCh tcc') =
         buf (RemoveSubConnCh ?t1) @
         take (cap (RemoveSubConnCh ?t1) - length (buf (RemoveSubConnCh ?t1))) scs"
    by blast
  have r: "sequentially RemoveSubConn tcc (sc # scs) =
           Inr (replicate (length (sc # scs)) (), tcc')"
    by (simp add: step run)
  have c1: "cap (RemoveSubConnCh tcc') = cap (RemoveSubConnCh tcc)"
    using cap1 by (simp add: cap_try_send)
  have b1: "buf (RemoveSubConnCh tcc') =
         buf (RemoveSubConnCh tcc) @
         take (cap (RemoveSubConnCh tcc) - length (buf (RemoveSubConnCh tcc))) (sc # scs)"
  proof (rule buf_after_step)
    show "buf (RemoveSubConnCh tcc') =
            buf (try_send (RemoveSubConnCh tcc) sc) @
            take (cap (RemoveSubConnCh tcc) - length (buf (try_send (RemoveSubConnCh tcc) sc))) scs"
      using buf1 by (simp add: cap_try_send)
    show "buf (try_send (RemoveSubConnCh tcc) sc) =
            buf (RemoveSubConnCh tcc) @
            take (cap (RemoveSubConnCh tcc) - length (buf (RemoveSubConnCh tcc))) [sc]"
      by (rule buf_try_send)
  qed
  from r c1 b1 show ?case by blast
qed

lemma fresh_channels:
  "cap (NewSubConnCh (NewTestClientConn t)) = 10"
  "buf (NewSubConnCh (NewTestClientConn t)) = []"
  "cap (NewSubConnAddrsCh (NewTestClientConn t)) = 10"
  "buf (NewSubConnAddrsCh (NewTestClientConn t)) = []"
  "cap (RemoveSubConnCh (NewTestClientConn t)) = 10"
  "buf (RemoveSubConnCh (NewTestClientConn t)) = []"
  "subConnIdx (NewTestClientConn t) = 0"
  "logger (NewTestClientConn t) = t"
  by (simp_all add: NewTestClientConn_def make_chan_def)

lemma latest_slots_fresh: "latest_slots (NewTestClientConn t)"
  by (simp add: latest_slots_def NewTestClientConn_def make_chan_def)

text \<open>
  C6. For every number of calls that does not exceed the size of the pool, that many
  sequential calls of \<open>NewSubConn\<close> on a fresh \<open>TestClientConn\<close> all return, and they
  return the SubConns of the pool in index order 0, 1, 2, ..., each with the nil error.
\<close>

theorem NewSubConn_pool_order:
  assumes "length calls \<le> length TestSubConns"
  shows "\<exists>tcc'. sequentially (\<lambda>tcc (a, opts). NewSubConn tcc a opts) (NewTestClientConn t) calls =
           Inr (map (\<lambda>sc. (Some sc, None)) (take (length calls) TestSubConns), tcc')"
proof -
  have "subConnIdx (NewTestClientConn t) = int 0" by (simp add: fresh_channels)
  moreover have "0 + length calls \<le> 16" using assms by (simp add: length_TestSubConns)
  ultimately show ?thesis
    using sequentially_NewSubConn [of "NewTestClientConn t" 0 calls] by auto
qed

theorem NewSubConn_pool_order_witness:
  "length [([''a''], ()), ([''b''], ()), ([''c''], ())] \<le> length TestSubConns \<and>
   map_sum id fst
     (sequentially (\<lambda>tcc (a, opts). NewSubConn tcc a opts)
        (NewTestClientConn [] :: (string, unit, unit, unit) TestClientConn)
        [([''a''], ()), ([''b''], ()), ([''c''], ())]) =
   Inr [(Some \<lparr>id' = ''sc0''\<rparr>, None), (Some \<lparr>id' = ''sc1''\<rparr>, None),
        (Some \<lparr>id' = ''sc2''\<rparr>, None)]"
  using NewSubConn_pool_order
    [of "[([''a''], ()), ([''b''], ()), ([''c''], ())]"
        "[] :: (string, unit, unit, unit) log_line list"]
  by (auto simp: TestSubConns_eq)

text \<open>
  C10. The cursor \<open>subConnIdx\<close> never wraps and running out of SubConns is not an error
  value: after \<open>TestSubConnsCount\<close> (16) calls of \<open>NewSubConn\<close> on a fresh
  \<open>TestClientConn\<close> the cursor is 16, and the next call indexes past the end of the pool
  and panics (index out of range [16] with length 16) instead of returning; so does any
  longer sequence of calls.
\<close>

theorem NewSubConn_pool_exhausted:
  assumes "length calls = nat TestSubConnsCount"
  shows "(\<exists>rs tcc'.
            sequentially (\<lambda>tcc (a, opts). NewSubConn tcc a opts) (NewTestClientConn t) calls =
              Inr (rs, tcc')
            \<and> subConnIdx tcc' = TestSubConnsCount
            \<and> NewSubConn tcc' a opts = Inl (PanicIndexOutOfRange 16 16))
         \<and> sequentially (\<lambda>tcc (a, opts). NewSubConn tcc a opts) (NewTestClientConn t)
             (calls @ (a, opts) # later) = Inl (PanicIndexOutOfRange 16 16)"
proof -
  have len: "length calls = 16" using assms by (simp add: TestSubConnsCount_def)
  have "subConnIdx (NewTestClientConn t) = int 0" by (simp add: fresh_channels)
  moreover have "0 + length calls \<le> 16" using len by simp
  ultimately obtain tcc' where
    run: "sequentially (\<lambda>tcc (a, opts). NewSubConn tcc a opts) (NewTestClientConn t) calls =
           Inr (map (\<lambda>sc. (Some sc, None)) (take (length calls) (drop 0 TestSubConns)), tcc')"
    and idx: "subConnIdx tcc' = int (0 + length calls)"
    using sequentially_NewSubConn [of "NewTestClientConn t" 0 calls] by blast
  have idx16: "subConnIdx tcc' = 16" using idx len by simp
  have panic: "NewSubConn tcc' a opts = Inl (PanicIndexOutOfRange 16 16)"
    using NewSubConn_out_of_range [of tcc' a opts] idx16 by simp
  have "sequentially (\<lambda>tcc (a, opts). NewSubConn tcc a opts) (NewTestClientConn t)
             (calls @ (a, opts) # later) = Inl (PanicIndexOutOfRange 16 16)"
    by (simp add: sequentially_append run panic)
  then show ?thesis using run idx16 panic by (auto simp: TestSubConnsCount_def)
qed

theorem NewSubConn_pool_exhausted_witness:
  "length (replicate 16 ([''a''], ())) = nat TestSubConnsCount \<and>
   sequentially (\<lambda>tcc (a, opts). NewSubConn tcc a opts)
     (NewTestClientConn [] :: (string, unit, unit, unit) TestClientConn)
     (replicate 16 ([''a''], ()) @ [([''a''], ())]) = Inl (PanicIndexOutOfRange 16 16)"
  using NewSubConn_pool_exhausted
    [of "replicate 16 ([''a''], ())" "[] :: (string, unit, unit, unit) log_line list"
        "[''a'']" "()" "[]"]
  by (simp add: TestSubConnsCount_def)

text \<open>
  C3. The comments on the three history channels call their contents the last 10 events:
  pushing more events than the capacity should leave the most recent ten, the oldest
  dropped. The code does otherwise. After eleven pushes with nobody receiving,
  \<open>NewSubConnCh\<close>, \<open>NewSubConnAddrsCh\<close> and \<open>RemoveSubConnCh\<close> hold the first ten
  events, and the eleventh (the SubConn at index 10) is the one that is missing.
\<close>

theorem history_queues_keep_first_ten:
  "(\<exists>rs tcc'.
      sequentially (\<lambda>tcc (a, opts). NewSubConn tcc a opts)
        (NewTestClientConn [] :: (nat, unit, unit, unit) TestClientConn)
        (map (\<lambda>k. ([k], ())) [0 ..< 11]) = Inr (rs, tcc')
      \<and> buf (NewSubConnCh tcc') = map Some (take 10 TestSubConns)
      \<and> Some (TestSubConns ! 10) \<notin> set (buf (NewSubConnCh tcc'))
      \<and> buf (NewSubConnAddrsCh tcc') = map (\<lambda>k. [k]) [0 ..< 10])
   \<and> (\<exists>rs tcc'.
      sequentially RemoveSubConn
        (NewTestClientConn [] :: (nat, unit, unit, unit) TestClientConn)
        (map Some (take 11 TestSubConns)) = Inr (rs, tcc')
      \<and> buf (RemoveSubConnCh tcc') = map Some (take 10 TestSubConns)
      \<and> Some (TestSubConns ! 10) \<notin> set (buf (RemoveSubConnCh tcc')))"
proof -
  let ?fresh = "NewTestClientConn [] :: (nat, unit, unit, unit) TestClientConn"
  let ?calls = "map (\<lambda>k. ([k], ())) [0 ..< 11] :: (nat list \<times> unit) list"
  have absent: "Some (TestSubConns ! 10) \<notin> set (map Some (take 10 TestSubConns))"
    by (simp add: TestSubConns_eq)
  have "subConnIdx ?fresh = int 0" by (simp add: fresh_channels)
  moreover have "0 + length ?calls \<le> 16" by simp
  ultimately obtain tcc' where
    run: "sequentially (\<lambda>tcc (a, opts). NewSubConn tcc a opts) ?fresh ?calls =
           Inr (map (\<lambda>sc. (Some sc, None)) (take (length ?calls) (drop 0 TestSubConns)), tcc')"
    and b1: "buf (NewSubConnCh tcc') =
             buf (NewSubConnCh ?fresh) @
             take (cap (NewSubConnCh ?fresh) - length (buf (NewSubConnCh ?fresh)))
               (map Some (take (length ?calls) (drop 0 TestSubConns)))"
    and b2: "buf (NewSubConnAddrsCh tcc') =
             buf (NewSubConnAddrsCh ?fresh) @
             take (cap (NewSubConnAddrsCh ?fresh) - length (buf (NewSubConnAddrsCh ?fresh)))
               (map fst ?calls)"
    using sequentially_NewSubConn [of ?fresh 0 ?calls] by blast
  have q1: "buf (NewSubConnCh tcc') = map Some (take 10 TestSubConns)"
    using b1 by (simp add: fresh_channels take_map)
  have "map fst ?calls = map (\<lambda>k. [k]) [0 ..< 11]" by (simp add: comp_def)
  then have q2: "buf (NewSubConnAddrsCh tcc') = map (\<lambda>k. [k]) [0 ..< 10]"
    using b2 by (simp add: fresh_channels take_map del: upt_Suc)
  obtain tcc'' where
    run': "sequentially RemoveSubConn ?fresh (map Some (take 11 TestSubConns)) =
           Inr (replicate (length (map Some (take 11 TestSubConns))) (), tcc'')"
    and b3: "buf (RemoveSubConnCh tcc'') =
         buf (RemoveSubConnCh ?fresh) @
         take (cap (RemoveSubConnCh ?fresh) - length (buf (RemoveSubConnCh ?fresh)))
           (map Some (take 11 TestSubConns))"
    using sequentially_RemoveSubConn [of ?fresh "map Some (take 11 TestSubConns)"] by blast
  have q3: "buf (RemoveSubConnCh tcc'') = map Some (take 10 TestSubConns)"
    using b3 by (simp add: fresh_channels take_map)
  show ?thesis
    using run q1 q2 run' q3 absent by (simp del: upt_Suc)
qed

text \<open>
  C4. A push on a full history channel leaves the channel as it was: the new event is
  dropped and the buffered events are kept. \<open>RemoveSubConn\<close> always returns;
  \<open>NewSubConn\<close> never blocks, and with the cursor inside the pool it returns a SubConn
  and the nil error whether or not its two channels are full.
\<close>

theorem history_push_on_full_queue:
  "(\<exists>tcc'. RemoveSubConn tcc sc = Inr ((), tcc') \<and>
      (full (RemoveSubConnCh tcc) \<longrightarrow> RemoveSubConnCh tcc' = RemoveSubConnCh tcc))
   \<and> NewSubConn tcc a opts \<noteq> Inl Blocked
   \<and> (0 \<le> subConnIdx tcc \<and> subConnIdx tcc < TestSubConnsCount \<longrightarrow>
        (\<exists>sc' tcc'. NewSubConn tcc a opts = Inr ((sc', None), tcc') \<and>
           (full (NewSubConnAddrsCh tcc) \<longrightarrow> NewSubConnAddrsCh tcc' = NewSubConnAddrsCh tcc) \<and>
           (full (NewSubConnCh tcc) \<longrightarrow> NewSubConnCh tcc' = NewSubConnCh tcc)))"
proof (intro conjI impI)
  show "\<exists>tcc'. RemoveSubConn tcc sc = Inr ((), tcc') \<and>
      (full (RemoveSubConnCh tcc) \<longrightarrow> RemoveSubConnCh tcc' = RemoveSubConnCh tcc)"
    by (simp add: RemoveSubConn_def try_send_full)
  show "NewSubConn tcc a opts \<noteq> Inl Blocked"
    by (simp add: NewSubConn_def Let_def)
  assume "0 \<le> subConnIdx tcc \<and> subConnIdx tcc < TestSubConnsCount"
  then have "0 \<le> subConnIdx tcc" "subConnIdx tcc < 16"
    by (simp_all add: TestSubConnsCount_def)
  from NewSubConn_in_range [OF this, of a opts]
  show "\<exists>sc' tcc'. NewSubConn tcc a opts = Inr ((sc', None), tcc') \<and>
           (full (NewSubConnAddrsCh tcc) \<longrightarrow> NewSubConnAddrsCh tcc' = NewSubConnAddrsCh tcc) \<and>
           (full (NewSubConnCh tcc) \<longrightarrow> NewSubConnCh tcc' = NewSubConnCh tcc)"
    by (simp add: try_send_full)
qed

theorem history_push_on_full_queue_witness:
  "(let T = (NewTestClientConn [] :: (string, unit, unit, unit) TestClientConn)
              \<lparr>NewSubConnAddrsCh := \<lparr>cap = 10, buf = replicate 10 [''x'']\<rparr>,
               NewSubConnCh := \<lparr>cap = 10, buf = map Some (take 10 TestSubConns)\<rparr>,
               RemoveSubConnCh := \<lparr>cap = 10, buf = map Some (take 10 TestSubConns)\<rparr>,
               subConnIdx := 10\<rparr>
    in full (RemoveSubConnCh T) \<and> full (NewSubConnAddrsCh T) \<and> full (NewSubConnCh T) \<and>
       0 \<le> subConnIdx T \<and> subConnIdx T < TestSubConnsCount \<and>
       map_sum id (RemoveSubConnCh \<circ> snd) (RemoveSubConn T (Some \<lparr>id' = ''sc10''\<rparr>)) =
         Inr (RemoveSubConnCh T) \<and>
       map_sum id (NewSubConnAddrsCh \<circ> snd) (NewSubConn T [''y''] ()) =
         Inr (NewSubConnAddrsCh T) \<and>
       map_sum id (NewSubConnCh \<circ> snd) (NewSubConn T [''y''] ()) = Inr (NewSubConnCh T) \<and>
       map_sum id fst (NewSubConn T [''y''] ()) = Inr (Some \<lparr>id' = ''sc10''\<rparr>, None))"
  using history_push_on_full_queue
    [of "(NewTestClientConn [] :: (string, unit, unit, unit) TestClientConn)
              \<lparr>NewSubConnAddrsCh := \<lparr>cap = 10, buf = replicate 10 [''x'']\<rparr>,
               NewSubConnCh := \<lparr>cap = 10, buf = map Some (take 10 TestSubConns)\<rparr>,
               RemoveSubConnCh := \<lparr>cap = 10, buf = map Some (take 10 TestSubConns)\<rparr>,
               subConnIdx := 10\<rparr>"
        "Some \<lparr>id' = ''sc10''\<rparr>" "[''y'']" "()"]
    NewSubConn_in_range
    [of "(NewTestClientConn [] :: (string, unit, unit, unit) TestClientConn)
              \<lparr>NewSubConnAddrsCh := \<lparr>cap = 10, buf = replicate 10 [''x'']\<rparr>,
               NewSubConnCh := \<lparr>cap = 10, buf = map Some (take 10 TestSubConns)\<rparr>,
               RemoveSubConnCh := \<lparr>cap = 10, buf = map Some (take 10 TestSubConns)\<rparr>,
               subConnIdx := 10\<rparr>" "[''y'']" "()"]
  by (auto simp: full_def Let_def TestSubConnsCount_def length_TestSubConns TestSubConns_eq)

lemma UpdateState_latest:
  assumes "latest_slots tcc"
  shows "\<exists>tcc'. UpdateState tcc bs = Inr ((), tcc') \<and> latest_slots tcc' \<and>
           buf (NewStateCh tcc') = [ConnectivityState bs] \<and>
           buf (NewPickerCh tcc') = [Picker bs]"
proof -
  have a: "send (try_recv (NewStateCh tcc)) (ConnectivityState bs) =
           Inr (NewStateCh tcc\<lparr>buf := [ConnectivityState bs]\<rparr>)"
    using assms
    by (cases "buf (NewStateCh tcc)") (simp_all add: latest_slots_def send_def try_recv_def)
  have b: "send (try_recv (NewPickerCh tcc)) (Picker bs) =
           Inr (NewPickerCh tcc\<lparr>buf := [Picker bs]\<rparr>)"
    using assms
    by (cases "buf (NewPickerCh tcc)") (simp_all add: latest_slots_def send_def try_recv_def)
  show ?thesis
    using assms by (simp add: UpdateState_def Let_def a b latest_slots_def)
qed

lemma latest_slots_NewSubConn:
  "latest_slots tcc \<Longrightarrow> NewSubConn tcc a opts = Inr (r, tcc') \<Longrightarrow> latest_slots tcc'"
  by (auto simp: NewSubConn_def Let_def latest_slots_def split: if_splits)

lemma latest_slots_RemoveSubConn:
  "latest_slots tcc \<Longrightarrow> RemoveSubConn tcc sc = Inr (r, tcc') \<Longrightarrow> latest_slots tcc'"
  by (auto simp: RemoveSubConn_def latest_slots_def)

text \<open>
  C5. After one or more calls of \<open>UpdateState\<close> on a \<open>TestClientConn\<close> whose two
  single-slot channels are as \<open>NewTestClientConn\<close> makes them and every method leaves
  them, every call has returned, \<open>NewStateCh\<close> holds exactly the connectivity state and
  \<open>NewPickerCh\<close> exactly the picker of the last call, and nothing older.
\<close>

theorem UpdateState_latest_only:
  assumes "latest_slots tcc" "bss \<noteq> []"
  shows "\<exists>rs tcc'. sequentially UpdateState tcc bss = Inr (rs, tcc') \<and>
           buf (NewStateCh tcc') = [ConnectivityState (last bss)] \<and>
           buf (NewPickerCh tcc') = [Picker (last bss)] \<and>
           latest_slots tcc'"
  using assms
proof (induction bss arbitrary: tcc)
  case Nil
  then show ?case by simp
next
  case (Cons bs bss)
  from UpdateState_latest [OF Cons.prems(1), of bs]
  obtain t1 where step: "UpdateState tcc bs = Inr ((), t1)" and inv: "latest_slots t1"
    and st: "buf (NewStateCh t1) = [ConnectivityState bs]"
    and pk: "buf (NewPickerCh t1) = [Picker bs]"
    by blast
  show ?case
  proof (cases "bss = []")
    case True
    then show ?thesis using step inv st pk by simp
  next
    case False
    from Cons.IH [OF inv False]
    obtain rs tcc' where "sequentially UpdateState t1 bss = Inr (rs, tcc')"
      and "buf (NewStateCh tcc') = [ConnectivityState (last bss)]"
      and "buf (NewPickerCh tcc') = [Picker (last bss)]"
      and "latest_slots tcc'"
      by blast
    then show ?thesis using step False by simp
  qed
qed

theorem UpdateState_latest_only_witness:
  "latest_slots (NewTestClientConn [] :: (string, unit, nat, string) TestClientConn) \<and>
   [\<lparr>ConnectivityState = 1 :: nat, Picker = ''p1''\<rparr>,
    \<lparr>ConnectivityState = 2, Picker = ''p2''\<rparr>] \<noteq> [] \<and>
   map_sum id (buf \<circ> NewStateCh \<circ> snd)
     (sequentially UpdateState
        (NewTestClientConn [] :: (string, unit, nat, string) TestClientConn)
        [\<lparr>ConnectivityState = 1 :: nat, Picker = ''p1''\<rparr>,
         \<lparr>ConnectivityState = 2, Picker = ''p2''\<rparr>]) = Inr [2] \<and>
   map_sum id (buf \<circ> NewPickerCh \<circ> snd)
     (sequentially UpdateState
        (NewTestClientConn [] :: (string, unit, nat, string) TestClientConn)
        [\<lparr>ConnectivityState = 1 :: nat, Picker = ''p1''\<rparr>,
         \<lparr>ConnectivityState = 2, Picker = ''p2''\<rparr>]) = Inr [''p2'']"
  using UpdateState_latest_only
    [of "NewTestClientConn [] :: (string, unit, nat, string) TestClientConn"
        "[\<lparr>ConnectivityState = 1 :: nat, Picker = ''p1''\<rparr>,
          \<lparr>ConnectivityState = 2, Picker = ''p2''\<rparr>]"]
    latest_slots_fresh [of "[] :: (string, unit, nat, string) log_line list"]
  by auto





text \<open>
  C8 as stated fails: the zero picker, with neither \<open>Err\<close> nor \<open>SC\<close>, returns the nil
  SubConn together with the nil error.
\<close>

theorem Pick_neither_counterexample:
  "\<not> exactly_one_populated (Pick \<lparr>Err = None, SC = None\<rparr> ())"
  by (simp add: exactly_one_populated_def Pick_def)

text \<open>
  C8, amended. \<open>Pick\<close> returns the empty result and \<open>Err\<close> when \<open>Err\<close> is not nil, and
  the result holding \<open>SC\<close> with the nil error otherwise. It never returns both a SubConn
  and an error; it returns exactly one of them when the picker has an \<open>Err\<close> or an
  \<open>SC\<close>, and neither when the picker has neither.
\<close>

theorem Pick_result:
  "Pick tcp info =
     (if Err tcp \<noteq> None then (\<lparr>SubConn = None\<rparr>, Err tcp) else (\<lparr>SubConn = SC tcp\<rparr>, None))
   \<and> \<not> (SubConn (fst (Pick tcp info)) \<noteq> None \<and> snd (Pick tcp info) \<noteq> None)
   \<and> (Err tcp \<noteq> None \<or> SC tcp \<noteq> None \<longrightarrow> exactly_one_populated (Pick tcp info))
   \<and> (Err tcp = None \<and> SC tcp = None \<longrightarrow> Pick tcp info = (\<lparr>SubConn = None\<rparr>, None))"
  by (auto simp: exactly_one_populated_def Pick_def)

theorem Pick_result_witness:
  "Err \<lparr>Err = Some ErrTestConstPicker, SC = None\<rparr> = Some ErrTestConstPicker \<and>
   exactly_one_populated (Pick \<lparr>Err = Some ErrTestConstPicker, SC = None\<rparr> ()) \<and>
   Pick \<lparr>Err = Some ErrTestConstPicker, SC = None\<rparr> () =
     (\<lparr>SubConn = None\<rparr>, Some ErrTestConstPicker)"
  using Pick_result [of "\<lparr>Err = Some ErrTestConstPicker, SC = None\<rparr>" "()"]
  by auto

text \<open>
  C9. \<open>UpdateBalancerState\<close>, \<open>ResolveNow\<close> and \<open>Target\<close> of \<open>TestClientConn\<close> and
  \<open>ResolverError\<close> of \<open>testConstBalancer\<close> panic with "not implemented" for every
  receiver and every argument; none of them returns.
\<close>

theorem unsupported_calls_panic:
  "UpdateBalancerState tcc s p = Inl PanicNotImplemented
   \<and> ResolveNow tcc ropts = Inl PanicNotImplemented
   \<and> Target tcc = Inl PanicNotImplemented
   \<and> ResolverError tb err = Inl PanicNotImplemented"
  by (simp add: UpdateBalancerState_def ResolveNow_def Target_def ResolverError_def)

end
